theory Spec2Isabelle
  imports Complex_Main
begin

section \<open>Strings and the string primitives used by \<open>App.tsx\<close>\<close>

text \<open>
  A JavaScript string is modelled as a \<open>string\<close>, a list of 8-bit characters; a
  character beyond ASCII is held in UTF-8.  The primitives below are the ones
  \<open>InputField\<close> and \<open>formatNumber\<close> call on strings:
  \<open>replace(/[^0-9.]/g, '')\<close>, \<open>split('.')\<close>, \<open>slice(1)\<close>, \<open>join('')\<close>,
  \<open>endsWith('.')\<close> and \<open>repeat(n)\<close>.
\<close>

definition is_digit :: "char \<Rightarrow> bool" where
  "is_digit c = (48 \<le> (of_char c :: nat) \<and> (of_char c :: nat) \<le> 57)"

definition dot :: char where
  "dot = CHR ''.''"

text \<open>The character class \<open>[0-9.]\<close> of the regular expression in \<open>handleChange\<close>.\<close>

definition allowed :: "char \<Rightarrow> bool" where
  "allowed c = (is_digit c \<or> c = dot)"

text \<open>\<open>input.replace(/[^0-9.]/g, '')\<close>: every character outside the class is deleted.\<close>

definition strip_disallowed :: "string \<Rightarrow> string" where
  "strip_disallowed input = filter allowed input"

text \<open>
  \<open>s.split(sep)\<close> for a one-character separator: the pieces between the separators, in
  order; the result always has at least one piece (\<open>''.split('.')\<close> is \<open>['']\<close>).
\<close>

fun split :: "char \<Rightarrow> string \<Rightarrow> string list" where
  "split sep [] = [[]]"
| "split sep (c # cs) =
     (let ps = split sep cs
      in if c = sep then [] # ps else (c # hd ps) # tl ps)"

text \<open>\<open>parts.slice(1)\<close> and \<open>parts.join('')\<close>.\<close>

definition slice1 :: "'a list \<Rightarrow> 'a list" where
  "slice1 xs = drop 1 xs"

definition join_empty :: "string list \<Rightarrow> string" where
  "join_empty ps = concat ps"

definition endsWith :: "string \<Rightarrow> char \<Rightarrow> bool" where
  "endsWith s c = (s \<noteq> [] \<and> last s = c)"

section \<open>Edit sanitization (\<open>InputField.handleChange\<close>)\<close>

text \<open>
  The value \<open>cleanedValue\<close> that \<open>handleChange\<close> computes from the text of the input
  element: the disallowed characters are stripped, and when the split at \<open>.\<close> has more
  than two parts the first part, one \<open>.\<close> and all the other parts are concatenated.
\<close>

definition sanitize :: "string \<Rightarrow> string" where
  "sanitize input =
     (let cleanedValue = strip_disallowed input;
          parts = split dot cleanedValue
      in if length parts > 2
         then hd parts @ [dot] @ join_empty (slice1 parts)
         else cleanedValue)"

text \<open>
  The state of one field: \<open>value_prop\<close> is the \<open>value\<close> prop (the RawAmount, owned by the
  parent), \<open>displayValue\<close> the component's own state (the DisplayText).
\<close>

record field =
  value_prop :: string
  displayValue :: string

text \<open>
  An event handler returns the new \<open>displayValue\<close> and what it passes to \<open>onChange\<close>, if
  it calls it.  In \<open>CurrencyConverterApp\<close> every \<open>onChange\<close> is the state setter of the
  field's value, so \<open>emit\<close> stores an emitted value in \<open>value_prop\<close>.
\<close>

definition emit :: "string option \<Rightarrow> field \<Rightarrow> field" where
  "emit e f = (case e of None \<Rightarrow> f | Some v \<Rightarrow> f\<lparr>value_prop := v\<rparr>)"

text \<open>The RawAmount invariant of the data model: only digits and \<open>.\<close>, at most one \<open>.\<close>.\<close>

definition is_raw :: "string \<Rightarrow> bool" where
  "is_raw s = (list_all allowed s \<and> count_list s dot \<le> 1)"

section \<open>Strings that are too long\<close>

text \<open>
  The platform refuses to build a string of more than \<open>max_string_length\<close> UTF-16 code
  units: the operator \<open>+\<close> and \<open>repeat\<close> raise \<open>RangeError\<close> then.  The limit is the
  engine's; the value is V8's (\<open>2^29 - 24\<close>).  \<open>js_length\<close> is the \<open>length\<close> property: the
  number of UTF-16 code units of a text held in UTF-8 (a continuation byte counts
  nothing, the first byte of a four-byte sequence counts two).
\<close>

datatype error = RangeError

definition max_string_length :: nat where
  "max_string_length = 2 ^ 29 - 24"

definition utf16_units :: "char \<Rightarrow> nat" where
  "utf16_units c =
     (if 128 \<le> (of_char c :: nat) \<and> (of_char c :: nat) < 192 then 0
      else if 240 \<le> (of_char c :: nat) then 2
      else 1)"

definition js_length :: "string \<Rightarrow> nat" where
  "js_length s = sum_list (map utf16_units s)"

definition js_concat :: "string \<Rightarrow> string \<Rightarrow> error + string" where
  "js_concat a b =
     (if max_string_length < js_length a + js_length b then Inl RangeError else Inr (a @ b))"

text \<open>\<open>s.repeat(count)\<close>: a negative count is refused as well.\<close>

definition repeat :: "string \<Rightarrow> int \<Rightarrow> error + string" where
  "repeat s count =
     (if count < 0 \<or> int max_string_length < count * int (js_length s) then Inl RangeError
      else Inr (concat (replicate (nat count) s)))"

text \<open>Sequencing: an exception of the first step ends the computation.\<close>

definition and_then :: "error + 'a \<Rightarrow> ('a \<Rightarrow> error + 'b) \<Rightarrow> error + 'b" where
  "and_then r k = (case r of Inl e \<Rightarrow> Inl e | Inr x \<Rightarrow> k x)"

text \<open>
  \<open>handleChange\<close> with the two \<open>+\<close> of its third statement written out as platform
  calls: \<open>cleanedValue\<close> is the computation of \<open>sanitize\<close> that can raise.  The handler
  returns the new \<open>displayValue\<close> and the value it passes to \<open>onChange\<close>.
\<close>

definition cleanedValue :: "string \<Rightarrow> error + string" where
  "cleanedValue input =
     (let cleaned = strip_disallowed input;
          parts = split dot cleaned
      in if length parts > 2
         then and_then (js_concat (hd parts) [dot]) (\<lambda>p. js_concat p (join_empty (slice1 parts)))
         else Inr cleaned)"

definition handleChange :: "field \<Rightarrow> string \<Rightarrow> error + field \<times> string option" where
  "handleChange f input =
     and_then (cleanedValue input) (\<lambda>c. Inr (f\<lparr>displayValue := c\<rparr>, Some c))"

section \<open>Numbers\<close>

text \<open>
  A JavaScript number is an IEEE 754 double: \<open>NaN\<close>, an infinity, or a finite value
  with a sign (so that \<open>-0\<close> is a value of its own).  A finite value is held as its sign
  and its magnitude, a rational; the magnitudes that occur are those \<open>round_double\<close>
  returns, the ones a double has.
\<close>

datatype sign = Pos | Neg

datatype jsnum = NaN | Infinity sign | Num sign rat

definition sign_mult :: "sign \<Rightarrow> sign \<Rightarrow> sign" where
  "sign_mult s t = (if s = t then Pos else Neg)"

text \<open>
  \<open>flog b q\<close> is the exponent \<open>e\<close> with \<open>b ^ e \<le> q < b ^ (e + 1)\<close>, for \<open>q > 0\<close>: counted
  upwards by dividing while \<open>q\<close> is at least \<open>b\<close>, downwards by multiplying while \<open>q\<close> is
  less than 1.
\<close>

function flog_up :: "nat \<Rightarrow> rat \<Rightarrow> nat" where
  "flog_up b q = (if 2 \<le> b \<and> of_nat b \<le> q then Suc (flog_up b (q / of_nat b)) else 0)"
  by pat_completeness auto
termination
proof (relation "measure (\<lambda>(b, q). nat \<lfloor>q\<rfloor>)")
  show "wf (measure (\<lambda>(b, q). nat \<lfloor>q\<rfloor>))" by simp
next
  fix b :: nat and q :: rat
  assume a: "2 \<le> b \<and> of_nat b \<le> q"
  then have b2: "(2::rat) \<le> of_nat b" by (metis of_nat_le_iff of_nat_numeral)
  then have q2: "2 \<le> q" using a by linarith
  have "q / of_nat b \<le> q / 2"
    using b2 q2 by (intro divide_left_mono) auto
  also have "\<dots> \<le> q - 1" using q2 by simp
  finally have "\<lfloor>q / of_nat b\<rfloor> \<le> \<lfloor>q - 1\<rfloor>" by (rule floor_mono)
  then have "\<lfloor>q / of_nat b\<rfloor> < \<lfloor>q\<rfloor>" by simp
  moreover have "0 < \<lfloor>q\<rfloor>" using q2 by simp
  ultimately show "((b, q / of_nat b), (b, q)) \<in> measure (\<lambda>(b, q). nat \<lfloor>q\<rfloor>)"
    by simp
qed

function flog_down :: "nat \<Rightarrow> rat \<Rightarrow> nat" where
  "flog_down b q = (if 2 \<le> b \<and> 0 < q \<and> q < 1 then Suc (flog_down b (q * of_nat b)) else 0)"
  by pat_completeness auto
termination
proof (relation "measure (\<lambda>(b, q). nat \<lceil>1 / q\<rceil>)")
  show "wf (measure (\<lambda>(b, q). nat \<lceil>1 / q\<rceil>))" by simp
next
  fix b :: nat and q :: rat
  assume a: "2 \<le> b \<and> 0 < q \<and> q < 1"
  then have b2: "(2::rat) \<le> of_nat b" by (metis of_nat_le_iff of_nat_numeral)
  have x1: "1 < 1 / q" using a by simp
  then have c2: "2 \<le> \<lceil>1 / q\<rceil>" by linarith
  have "1 / (q * of_nat b) \<le> 1 / (q * 2)"
    using b2 a by (intro divide_left_mono mult_left_mono) auto
  also have "\<dots> = (1 / q) / 2" by simp
  also have "\<dots> \<le> of_int \<lceil>1 / q\<rceil> / 2" by (simp add: divide_right_mono)
  also have "\<dots> \<le> of_int (\<lceil>1 / q\<rceil> - 1)" using c2 by simp
  finally have "\<lceil>1 / (q * of_nat b)\<rceil> \<le> \<lceil>1 / q\<rceil> - 1" by (rule ceiling_le)
  then have "nat \<lceil>1 / (q * of_nat b)\<rceil> < nat \<lceil>1 / q\<rceil>"
    using c2 by linarith
  then show "((b, q * of_nat b), (b, q)) \<in> measure (\<lambda>(b, q). nat \<lceil>1 / q\<rceil>)"
    by simp
qed

declare flog_up.simps [simp del]

declare flog_down.simps [simp del]

definition flog :: "nat \<Rightarrow> rat \<Rightarrow> int" where
  "flog b q = (if 1 \<le> q then int (flog_up b q) else - int (flog_down b q))"

text \<open>
  Rounding to the nearest integer, a tie to the even one; \<open>f\<close> is the floor and \<open>r\<close> what
  is left above it.
\<close>

definition tie_even :: "int \<Rightarrow> rat \<Rightarrow> int" where
  "tie_even f r = (if r < 1 / 2 then f else if 1 / 2 < r then f + 1 else if even f then f else f + 1)"

definition nearest_int :: "rat \<Rightarrow> int \<Rightarrow> int" where
  "nearest_int x f = tie_even f (x - of_int f)"

definition rne :: "rat \<Rightarrow> int" where
  "rne x = nearest_int x \<lfloor>x\<rfloor>"

text \<open>
  Rounding a magnitude to the nearest double, a tie to the even significand.  The
  doubles around \<open>q\<close> are the multiples of \<open>2 ^ binade q\<close>: 53 significant bits, and no
  exponent below \<open>-1074\<close> (the subnormal numbers and the underflow to zero).  A rounded
  magnitude of \<open>2 ^ 1024\<close> or more is an overflow.
\<close>

definition binade :: "rat \<Rightarrow> int" where
  "binade q = max (flog 2 q - 52) (- 1074)"

definition quantize :: "rat \<Rightarrow> rat \<Rightarrow> rat" where
  "quantize q ulp = of_int (rne (q / ulp)) * ulp"

definition overflow :: "sign \<Rightarrow> rat \<Rightarrow> jsnum" where
  "overflow s v = (if 2 ^ 1024 \<le> v then Infinity s else Num s v)"

definition round_double :: "sign \<Rightarrow> rat \<Rightarrow> jsnum" where
  "round_double s q =
     (if q \<le> 0 then Num s 0 else overflow s (quantize q (power_int 2 (binade q))))"

definition isNaN :: "jsnum \<Rightarrow> bool" where
  "isNaN x = (x = NaN)"

text \<open>\<open>num === 0\<close>: true of both zeros.\<close>

definition is_zero :: "jsnum \<Rightarrow> bool" where
  "is_zero x = (case x of Num s m \<Rightarrow> m = 0 | _ \<Rightarrow> False)"

text \<open>The literal \<open>0\<close> of the source.\<close>

definition zero :: jsnum where
  "zero = Num Pos 0"

text \<open>
  The operators \<open>/\<close> and \<open>*\<close>: the exact quotient or product of the operands, rounded to
  a double.
\<close>

fun js_div :: "jsnum \<Rightarrow> jsnum \<Rightarrow> jsnum" where
  "js_div NaN y = NaN"
| "js_div x NaN = NaN"
| "js_div (Infinity s) (Infinity t) = NaN"
| "js_div (Infinity s) (Num t n) = Infinity (sign_mult s t)"
| "js_div (Num s m) (Infinity t) = Num (sign_mult s t) 0"
| "js_div (Num s m) (Num t n) =
     (if n = 0 then (if m = 0 then NaN else Infinity (sign_mult s t))
      else round_double (sign_mult s t) (m / n))"

fun js_mult :: "jsnum \<Rightarrow> jsnum \<Rightarrow> jsnum" where
  "js_mult NaN y = NaN"
| "js_mult x NaN = NaN"
| "js_mult (Infinity s) (Infinity t) = Infinity (sign_mult s t)"
| "js_mult (Infinity s) (Num t n) = (if n = 0 then NaN else Infinity (sign_mult s t))"
| "js_mult (Num s m) (Infinity t) = (if m = 0 then NaN else Infinity (sign_mult s t))"
| "js_mult (Num s m) (Num t n) = round_double (sign_mult s t) (m * n)"

section \<open>\<open>parseFloat\<close>\<close>

text \<open>
  \<open>parseFloat\<close> skips leading white space and reads the longest prefix that is a
  \<open>StrDecimalLiteral\<close>: an optional sign, then \<open>Infinity\<close> or decimal digits with an
  optional fraction and an optional exponent; with no such prefix the result is \<open>NaN\<close>.
  The value is the decimal value of the prefix, rounded to a double.
  Text beyond ASCII is held in UTF-8, so the white space characters beyond ASCII are
  the byte sequences of \<open>ws_seqs\<close>.
\<close>

definition ws_seqs :: "string list" where
  "ws_seqs =
     [[CHR 0x09], [CHR 0x0A], [CHR 0x0B], [CHR 0x0C], [CHR 0x0D], [CHR 0x20],
      [CHR 0xC2, CHR 0xA0], [CHR 0xE1, CHR 0x9A, CHR 0x80],
      [CHR 0xE2, CHR 0x80, CHR 0x80], [CHR 0xE2, CHR 0x80, CHR 0x81],
      [CHR 0xE2, CHR 0x80, CHR 0x82], [CHR 0xE2, CHR 0x80, CHR 0x83],
      [CHR 0xE2, CHR 0x80, CHR 0x84], [CHR 0xE2, CHR 0x80, CHR 0x85],
      [CHR 0xE2, CHR 0x80, CHR 0x86], [CHR 0xE2, CHR 0x80, CHR 0x87],
      [CHR 0xE2, CHR 0x80, CHR 0x88], [CHR 0xE2, CHR 0x80, CHR 0x89],
      [CHR 0xE2, CHR 0x80, CHR 0x8A], [CHR 0xE2, CHR 0x80, CHR 0xA8],
      [CHR 0xE2, CHR 0x80, CHR 0xA9], [CHR 0xE2, CHR 0x80, CHR 0xAF],
      [CHR 0xE2, CHR 0x81, CHR 0x9F], [CHR 0xE3, CHR 0x80, CHR 0x80],
      [CHR 0xEF, CHR 0xBB, CHR 0xBF]]"

definition starts_with :: "string \<Rightarrow> string \<Rightarrow> bool" where
  "starts_with s p = (take (length p) s = p)"

text \<open>At most \<open>n\<close> white space characters are dropped; \<open>length s\<close> covers all of \<open>s\<close>.\<close>

fun drop_ws :: "nat \<Rightarrow> string \<Rightarrow> string" where
  "drop_ws 0 s = s"
| "drop_ws (Suc n) s =
     (case find (starts_with s) ws_seqs of
        None \<Rightarrow> s
      | Some w \<Rightarrow> drop_ws n (drop (length w) s))"

definition trimStart :: "string \<Rightarrow> string" where
  "trimStart s = drop_ws (length s) s"

definition digit_val :: "char \<Rightarrow> nat" where
  "digit_val c = of_char c - 48"

definition digits_val :: "string \<Rightarrow> nat" where
  "digits_val ds = foldl (\<lambda>a c. 10 * a + digit_val c) 0 ds"

definition parse_sign :: "string \<Rightarrow> sign \<times> string" where
  "parse_sign s =
     (case s of
        [] \<Rightarrow> (Pos, s)
      | c # r \<Rightarrow>
          if c = CHR ''-'' then (Neg, r)
          else if c = CHR ''+'' then (Pos, r)
          else (Pos, s))"

text \<open>The exponent part, if the text starts with one: \<open>e\<close> or \<open>E\<close>, a sign, digits.\<close>

definition parse_exponent :: "string \<Rightarrow> int" where
  "parse_exponent s =
     (case s of
        [] \<Rightarrow> 0
      | c # r \<Rightarrow>
          if c = CHR ''e'' \<or> c = CHR ''E''
          then (let (sg, t) = parse_sign r;
                    ds = takeWhile is_digit t
                in if ds = [] then 0
                   else (case sg of
                           Pos \<Rightarrow> int (digits_val ds)
                         | Neg \<Rightarrow> - int (digits_val ds)))
          else 0)"

definition scale10 :: "rat \<Rightarrow> int \<Rightarrow> rat" where
  "scale10 q e = (if 0 \<le> e then q * 10 ^ nat e else q / 10 ^ nat (- e))"

definition parseFloat :: "string \<Rightarrow> jsnum" where
  "parseFloat inputString =
     (let (sg, u) = parse_sign (trimStart inputString)
      in if starts_with u ''Infinity'' then Infinity sg
         else
           (let ip = takeWhile is_digit u;
                r1 = dropWhile is_digit u;
                has_dot = (r1 \<noteq> [] \<and> hd r1 = dot);
                fp = (if has_dot then takeWhile is_digit (tl r1) else []);
                r2 = (if has_dot then dropWhile is_digit (tl r1) else r1)
            in if ip = [] \<and> fp = [] then NaN
               else round_double sg
                      (scale10 (of_nat (digits_val (ip @ fp)))
                         (parse_exponent r2 - int (length fp)))))"

section \<open>\<open>toLocaleString('en-US', ...)\<close>\<close>

text \<open>
  The digits the platform prints for a double are those of the shortest decimal that
  rounds to it (the one nearest to it when several of that length do): decimals of 1
  to 17 significant digits are tried in turn, \<open>u\<close> being the value of the last digit's
  place, and at each length the two decimals next to \<open>q\<close>.
\<close>

definition closer :: "rat \<Rightarrow> int \<Rightarrow> rat \<Rightarrow> rat \<Rightarrow> rat" where
  "closer q n lo hi =
     (if q - lo < hi - q then lo
      else if hi - q < q - lo then hi
      else if even n then lo else hi)"

definition pick_valid :: "rat \<Rightarrow> int \<Rightarrow> rat \<Rightarrow> rat \<Rightarrow> rat option" where
  "pick_valid q n lo hi =
     (if round_double Pos lo = Num Pos q
      then (if round_double Pos hi = Num Pos q then Some (closer q n lo hi) else Some lo)
      else if round_double Pos hi = Num Pos q then Some hi
      else None)"

definition neighbours :: "rat \<Rightarrow> int \<Rightarrow> rat \<Rightarrow> rat option" where
  "neighbours q n u = pick_valid q n (of_int n * u) (of_int (n + 1) * u)"

definition shortest_at :: "rat \<Rightarrow> rat \<Rightarrow> rat option" where
  "shortest_at q u = neighbours q \<lfloor>q / u\<rfloor> u"

fun shortest_from :: "nat \<Rightarrow> rat \<Rightarrow> rat \<Rightarrow> rat" where
  "shortest_from 0 u q = q"
| "shortest_from (Suc n) u q =
     (case shortest_at q u of Some d \<Rightarrow> d | None \<Rightarrow> shortest_from n (u / 10) q)"

definition shortest_decimal :: "rat \<Rightarrow> rat" where
  "shortest_decimal q = (if q \<le> 0 then 0 else shortest_from 17 (power_int 10 (flog 10 q)) q)"

text \<open>
  The \<open>en-US\<close> decimal format with \<open>lo\<close> to \<open>hi\<close> fraction digits: the decimal is rounded to
  \<open>hi\<close> fraction digits (half away from zero), the integer digits are grouped in threes
  with \<open>,\<close>, and trailing fraction zeros beyond \<open>lo\<close> digits are dropped.
\<close>

definition digit_char :: "nat \<Rightarrow> char" where
  "digit_char d = char_of (48 + d)"

fun digits_of :: "nat \<Rightarrow> string" where
  "digits_of n = (if n < 10 then [digit_char n] else digits_of (n div 10) @ [digit_char (n mod 10)])"

declare digits_of.simps [simp del]

fun group3 :: "string \<Rightarrow> string" where
  "group3 (a # b # c # d # r) = a # b # c # CHR '','' # group3 (d # r)"
| "group3 ds = ds"

definition grouped :: "nat \<Rightarrow> string" where
  "grouped n = rev (group3 (rev (digits_of n)))"

text \<open>The last \<open>w\<close> decimal digits of \<open>n\<close>, with leading zeros.\<close>

fun fraction_digits :: "nat \<Rightarrow> nat \<Rightarrow> string" where
  "fraction_digits 0 n = []"
| "fraction_digits (Suc w) n = fraction_digits w (n div 10) @ [digit_char (n mod 10)]"

text \<open>Rounding a non-negative magnitude to the nearest integer, a half upwards.\<close>

definition round_half_up :: "rat \<Rightarrow> nat" where
  "round_half_up q = nat \<lfloor>q + 1 / 2\<rfloor>"

definition strip_zeros :: "nat \<Rightarrow> string \<Rightarrow> string" where
  "strip_zeros lo ds = take lo ds @ rev (dropWhile (\<lambda>c. c = CHR ''0'') (rev (drop lo ds)))"

definition sign_text :: "sign \<Rightarrow> string" where
  "sign_text s = (case s of Pos \<Rightarrow> [] | Neg \<Rightarrow> ''-'')"

text \<open>The infinity sign U+221E, in UTF-8.\<close>

definition infinity_text :: string where
  "infinity_text = [CHR 0xE2, CHR 0x88, CHR 0x9E]"

definition format_en_US :: "nat \<Rightarrow> nat \<Rightarrow> jsnum \<Rightarrow> string" where
  "format_en_US lo hi x =
     (case x of
        NaN \<Rightarrow> ''NaN''
      | Infinity s \<Rightarrow> sign_text s @ infinity_text
      | Num s m \<Rightarrow>
          (let scaled = round_half_up (shortest_decimal m * 10 ^ hi);
               fd = strip_zeros lo (fraction_digits hi (scaled mod 10 ^ hi))
           in sign_text s @ grouped (scaled div 10 ^ hi) @ (if fd = [] then [] else dot # fd)))"

text \<open>
  \<open>num.toLocaleString('en-US', options)\<close>.  Without options the fraction digits are 0 to
  3.  With \<open>minimumFractionDigits\<close> and \<open>maximumFractionDigits\<close> given, each must be in
  \<open>0..100\<close> and the first not above the second, or the call raises \<open>RangeError\<close>.
\<close>

definition toLocaleString :: "(int \<times> int) option \<Rightarrow> jsnum \<Rightarrow> error + string" where
  "toLocaleString options x =
     (case options of
        None \<Rightarrow> Inr (format_en_US 0 3 x)
      | Some (lo, hi) \<Rightarrow>
          if lo < 0 \<or> 100 < lo \<or> hi < 0 \<or> 100 < hi \<or> hi < lo then Inl RangeError
          else Inr (format_en_US (nat lo) (nat hi) x))"

section \<open>Result formatting (\<open>formatNumber\<close>)\<close>

text \<open>
  \<open>decimals\<close> is an integer here; the source's default of 2 is for a call without the
  argument, and \<open>ResultDisplay\<close> always passes one.
\<close>

definition formatNumber :: "jsnum \<Rightarrow> int \<Rightarrow> error + string" where
  "formatNumber num decimals =
     (if isNaN num \<or> is_zero num
      then and_then (repeat ''0'' decimals) (\<lambda>zs. js_concat ''0.'' zs)
      else toLocaleString (Some (decimals, decimals)) num)"

section \<open>Display synchronization and blur (\<open>InputField\<close>)\<close>

text \<open>The body of the effect that runs when \<open>value\<close> changes: the new \<open>displayValue\<close>.\<close>

definition syncDisplay :: "string \<Rightarrow> error + string" where
  "syncDisplay v =
     (if v = [] then Inr []
      else
        (let num = parseFloat v
         in if endsWith v dot \<and> \<not> isNaN num
            then and_then (toLocaleString None num) (\<lambda>t. js_concat t [dot])
            else if \<not> isNaN num then toLocaleString None num
            else Inr v))"

definition handleBlur :: "field \<Rightarrow> error + field \<times> string option" where
  "handleBlur f =
     (if value_prop f \<noteq> []
      then
        (let num = parseFloat (value_prop f)
         in if \<not> isNaN num
            then and_then (toLocaleString None num) (\<lambda>t. Inr (f\<lparr>displayValue := t\<rparr>, None))
            else Inr (f\<lparr>displayValue := []\<rparr>, Some []))
      else Inr (f\<lparr>displayValue := []\<rparr>, None))"

text \<open>
  One blur of a field: the handler runs, and a value passed to \<open>onChange\<close> becomes the
  field's new value.
\<close>

definition blur :: "field \<Rightarrow> error + field" where
  "blur f = and_then (handleBlur f) (\<lambda>(f', e). Inr (emit e f'))"

section \<open>Derived results (\<open>CurrencyConverterApp\<close>)\<close>

text \<open>A string is truthy when it is not empty.\<close>

definition truthy :: "string \<Rightarrow> bool" where
  "truthy s = (s \<noteq> [])"

definition pkrToPhpResult :: "string \<Rightarrow> string \<Rightarrow> jsnum" where
  "pkrToPhpResult pkrAmount1 rate1 =
     (if truthy rate1 \<and> truthy pkrAmount1 \<and> \<not> isNaN (parseFloat pkrAmount1) \<and> \<not> isNaN (parseFloat rate1)
      then js_div (parseFloat pkrAmount1) (parseFloat rate1) else zero)"

definition phpToPkrResult :: "string \<Rightarrow> string \<Rightarrow> jsnum" where
  "phpToPkrResult phpAmount1 rate2 =
     (if truthy rate2 \<and> truthy phpAmount1 \<and> \<not> isNaN (parseFloat phpAmount1) \<and> \<not> isNaN (parseFloat rate2)
      then js_mult (parseFloat phpAmount1) (parseFloat rate2) else zero)"

definition directPkrPhpRate :: "string \<Rightarrow> string \<Rightarrow> jsnum" where
  "directPkrPhpRate pkrAmount2 phpAmount2 =
     (if truthy phpAmount2 \<and> truthy pkrAmount2 \<and> \<not> isNaN (parseFloat pkrAmount2) \<and> \<not> isNaN (parseFloat phpAmount2)
      then js_div (parseFloat pkrAmount2) (parseFloat phpAmount2) else zero)"

definition crossUsdRate :: "string \<Rightarrow> string \<Rightarrow> jsnum" where
  "crossUsdRate usdPkrRate usdPhpRate =
     (if truthy usdPhpRate \<and> truthy usdPkrRate \<and> \<not> isNaN (parseFloat usdPkrRate) \<and> \<not> isNaN (parseFloat usdPhpRate)
      then js_div (parseFloat usdPkrRate) (parseFloat usdPhpRate) else zero)"

section \<open>Notions used in the statements\<close>

text \<open>
  A closed form of \<open>sanitize\<close>: everything up to the first \<open>.\<close> of the stripped text stays,
  and behind the first \<open>.\<close> all further \<open>.\<close> are deleted.
\<close>

definition collapse :: "string \<Rightarrow> string" where
  "collapse s =
     takeWhile (\<lambda>c. c \<noteq> dot) s @
     (case dropWhile (\<lambda>c. c \<noteq> dot) s of
        [] \<Rightarrow> []
      | d # r \<Rightarrow> d # filter (\<lambda>c. c \<noteq> dot) r)"

text \<open>A display text without its grouping separators.\<close>

definition ungroup :: "string \<Rightarrow> string" where
  "ungroup s = filter (\<lambda>c. c \<noteq> CHR '','') s"

section \<open>Properties of sanitization\<close>

lemma split_nonempty: "split sep s \<noteq> []"
  by (induction s) (auto simp: Let_def)

lemma hd_split: "hd (split sep s) = takeWhile (\<lambda>c. c \<noteq> sep) s"
  by (induction s) (auto simp: Let_def)

lemma length_split: "length (split sep s) = Suc (count_list s sep)"
proof (induction s)
  case Nil
  show ?case by simp
next
  case (Cons c cs)
  have "length (tl (split sep cs)) = count_list cs sep"
    using Cons.IH by simp
  then show ?case
    using Cons.IH by (simp add: Let_def)
qed

lemma concat_split: "concat (split sep s) = filter (\<lambda>c. c \<noteq> sep) s"
proof (induction s)
  case Nil
  show ?case by simp
next
  case (Cons c cs)
  obtain p ps where ps: "split sep cs = p # ps"
    using split_nonempty [of sep cs] by (cases "split sep cs") auto
  with Cons.IH show ?case
    by (simp add: Let_def)
qed

lemma concat_tl_split:
  "concat (tl (split sep s)) = filter (\<lambda>c. c \<noteq> sep) (drop 1 (dropWhile (\<lambda>c. c \<noteq> sep) s))"
proof (induction s)
  case Nil
  show ?case by simp
next
  case (Cons c cs)
  show ?case
  proof (cases "c = sep")
    case True
    then show ?thesis by (simp add: Let_def concat_split)
  next
    case False
    with Cons.IH show ?thesis by (simp add: Let_def)
  qed
qed

lemma count_zero_filter: "count_list s x = 0 \<Longrightarrow> filter (\<lambda>c. c \<noteq> x) s = s"
  by (induction s) (auto split: if_splits)

lemma dropWhile_hd_dot:
  "dropWhile (\<lambda>c. c \<noteq> x) s = d # r \<Longrightarrow> d = x"
  using hd_dropWhile [of "\<lambda>c. c \<noteq> x" s] by auto

lemma count_split_at:
  "count_list s x = count_list (dropWhile (\<lambda>c. c \<noteq> x) s) x"
  by (induction s) auto

lemma collapse_le1:
  assumes "count_list s dot \<le> 1"
  shows "collapse s = s"
proof (cases "dropWhile (\<lambda>c. c \<noteq> dot) s")
  case Nil
  then have "takeWhile (\<lambda>c. c \<noteq> dot) s = s"
    by (metis append_Nil2 takeWhile_dropWhile_id)
  then show ?thesis unfolding collapse_def Nil by simp
next
  case (Cons d r)
  then have d: "d = dot" by (rule dropWhile_hd_dot)
  have "count_list (d # r) dot \<le> 1"
    using assms count_split_at [of s dot] Cons by simp
  with d have "count_list r dot = 0" by simp
  then have "filter (\<lambda>c. c \<noteq> dot) r = r" by (rule count_zero_filter)
  with Cons have "collapse s = takeWhile (\<lambda>c. c \<noteq> dot) s @ dropWhile (\<lambda>c. c \<noteq> dot) s"
    by (simp add: collapse_def)
  then show ?thesis by simp
qed

lemma sanitize_collapse: "sanitize input = collapse (strip_disallowed input)"
proof -
  define s where "s = strip_disallowed input"
  show ?thesis
  proof (cases "count_list s dot \<le> 1")
    case True
    then have "\<not> length (split dot s) > 2" by (simp add: length_split)
    then have "sanitize input = s"
      by (simp add: sanitize_def s_def Let_def)
    with True show ?thesis by (simp add: collapse_le1 s_def)
  next
    case False
    then have long: "length (split dot s) > 2" by (simp add: length_split)
    have ne: "dropWhile (\<lambda>c. c \<noteq> dot) s \<noteq> []"
    proof
      assume "dropWhile (\<lambda>c. c \<noteq> dot) s = []"
      then have "count_list s dot = 0"
        by (metis count_split_at count_list.simps(1))
      with False show False by simp
    qed
    then obtain d r where dr: "dropWhile (\<lambda>c. c \<noteq> dot) s = d # r"
      by (cases "dropWhile (\<lambda>c. c \<noteq> dot) s") auto
    then have d: "d = dot" by (rule dropWhile_hd_dot)
    have "sanitize input = hd (split dot s) @ [dot] @ concat (tl (split dot s))"
      using long by (simp add: sanitize_def s_def Let_def join_empty_def slice1_def drop_Suc)
    also have "\<dots> = takeWhile (\<lambda>c. c \<noteq> dot) s @ [dot] @ filter (\<lambda>c. c \<noteq> dot) r"
      using dr by (simp add: hd_split concat_tl_split)
    also have "\<dots> = collapse s"
      using dr d by (simp add: collapse_def)
    finally show ?thesis by (simp add: s_def)
  qed
qed

lemma collapse_no_dot:
  assumes "dropWhile (\<lambda>c. c \<noteq> dot) s = []"
  shows "collapse s = s"
proof -
  have "takeWhile (\<lambda>c. c \<noteq> dot) s = s"
    using assms by (metis append_Nil2 takeWhile_dropWhile_id)
  then show ?thesis unfolding collapse_def assms by simp
qed

lemma collapse_dot:
  assumes "dropWhile (\<lambda>c. c \<noteq> dot) s = d # r"
  shows "collapse s = takeWhile (\<lambda>c. c \<noteq> dot) s @ dot # filter (\<lambda>c. c \<noteq> dot) r"
proof -
  have "d = dot" using assms by (rule dropWhile_hd_dot)
  then show ?thesis unfolding collapse_def assms by simp
qed

lemma set_collapse: "set (collapse s) \<subseteq> set s"
proof (cases "dropWhile (\<lambda>c. c \<noteq> dot) s")
  case Nil
  then show ?thesis by (simp only: collapse_no_dot subset_refl)
next
  case (Cons d r)
  have "set s = set (takeWhile (\<lambda>c. c \<noteq> dot) s) \<union> set (dropWhile (\<lambda>c. c \<noteq> dot) s)"
    by (metis set_append takeWhile_dropWhile_id)
  then have "set s = set (takeWhile (\<lambda>c. c \<noteq> dot) s) \<union> set (d # r)"
    by (simp only: Cons)
  moreover have "d = dot" using Cons by (rule dropWhile_hd_dot)
  ultimately show ?thesis
    by (auto simp: collapse_dot [OF Cons])
qed

lemma collapse_allowed: "list_all P s \<Longrightarrow> list_all P (collapse s)"
  using set_collapse [of s] by (auto simp: list_all_iff)

lemma count_list_filter_neq: "count_list (filter (\<lambda>c. c \<noteq> x) s) x = 0"
  by (induction s) auto

lemma count_list_takeWhile_neq: "count_list (takeWhile (\<lambda>c. c \<noteq> x) s) x = 0"
proof (induction s)
  case Nil
  show ?case by simp
next
  case (Cons a s)
  show ?case
  proof (cases "a = x")
    case True
    then show ?thesis by simp
  next
    case False
    then show ?thesis using Cons.IH by simp
  qed
qed

lemma count_list_append: "count_list (xs @ ys) x = count_list xs x + count_list ys x"
  by (induction xs) auto

lemma count_collapse:
  "count_list (collapse s) dot = (if count_list s dot = 0 then 0 else 1)"
proof (cases "dropWhile (\<lambda>c. c \<noteq> dot) s")
  case Nil
  then have "count_list s dot = 0"
    by (metis count_split_at count_list.simps(1))
  then show ?thesis
    by (simp add: collapse_no_dot [OF Nil])
next
  case (Cons d r)
  then have d: "d = dot" by (rule dropWhile_hd_dot)
  have "count_list s dot = count_list (d # r) dot"
    using count_split_at [of s dot] by (simp only: Cons)
  with d have pos: "count_list s dot \<noteq> 0" by simp
  show ?thesis
    using pos
    by (simp add: collapse_dot [OF Cons] count_list_append count_list_takeWhile_neq count_list_filter_neq)
qed

lemma is_raw_sanitize: "is_raw (sanitize s)"
proof -
  have "list_all allowed (strip_disallowed s)"
    by (simp add: strip_disallowed_def list_all_iff)
  then have "list_all allowed (collapse (strip_disallowed s))"
    by (rule collapse_allowed)
  moreover have "count_list (collapse (strip_disallowed s)) dot \<le> 1"
    by (simp add: count_collapse)
  ultimately show ?thesis
    by (simp only: is_raw_def sanitize_collapse simp_thms)
qed

lemma sanitize_fixed: "is_raw s \<Longrightarrow> sanitize s = s"
proof -
  assume r: "is_raw s"
  then have "strip_disallowed s = s"
    by (simp add: is_raw_def strip_disallowed_def list_all_iff)
  with r show ?thesis
    by (simp add: sanitize_collapse collapse_le1 is_raw_def)
qed

lemma filter_digit_no_dot: "filter is_digit (filter (\<lambda>c. c \<noteq> dot) r) = filter is_digit r"
proof -
  have "\<not> is_digit dot" by (simp add: is_digit_def dot_def)
  then show ?thesis by (induction r) auto
qed

lemma filter_digit_collapse: "filter is_digit (collapse s) = filter is_digit s"
proof (cases "dropWhile (\<lambda>c. c \<noteq> dot) s")
  case Nil
  then show ?thesis by (simp only: collapse_no_dot)
next
  case (Cons d r)
  have nd: "\<not> is_digit dot" by (simp add: is_digit_def dot_def)
  have d: "d = dot" using Cons by (rule dropWhile_hd_dot)
  have "s = takeWhile (\<lambda>c. c \<noteq> dot) s @ d # r"
    by (metis Cons takeWhile_dropWhile_id)
  then have "filter is_digit s = filter is_digit (takeWhile (\<lambda>c. c \<noteq> dot) s) @ filter is_digit r"
    using nd d by (metis filter.simps(2) filter_append)
  moreover have "filter is_digit (collapse s) =
      filter is_digit (takeWhile (\<lambda>c. c \<noteq> dot) s) @ filter is_digit (filter (\<lambda>c. c \<noteq> dot) r)"
    using nd by (simp only: collapse_dot [OF Cons] filter_append filter.simps if_False)
  ultimately show ?thesis
    by (simp only: filter_digit_no_dot)
qed

lemma takeWhile_collapse:
  "takeWhile (\<lambda>c. c \<noteq> dot) (collapse s) = takeWhile (\<lambda>c. c \<noteq> dot) s"
proof (cases "dropWhile (\<lambda>c. c \<noteq> dot) s")
  case Nil
  then show ?thesis by (simp only: collapse_no_dot)
next
  case (Cons d r)
  have "\<forall>c \<in> set (takeWhile (\<lambda>c. c \<noteq> dot) s). c \<noteq> dot"
    using set_takeWhileD by fastforce
  then show ?thesis
    by (simp add: collapse_dot [OF Cons] takeWhile_append2)
qed

lemma count_strip: "count_list (strip_disallowed s) dot = count_list s dot"
  by (induction s) (auto simp: strip_disallowed_def allowed_def)

section \<open>Evaluation lemmas\<close>

text \<open>
  Rules by which the simplifier evaluates the model on concrete inputs, and the values
  of the inputs used below.
\<close>

lemma round_half_up_fraction:
  assumes "0 < b"
  shows "round_half_up (of_nat a / of_nat b) = (2 * a + b) div (2 * b)"
proof -
  have "(of_nat a / of_nat b + 1 / 2 :: rat) = of_nat (2 * a + b) / of_nat (2 * b)"
    using assms by (simp add: field_simps)
  then have "\<lfloor>(of_nat a / of_nat b + 1 / 2 :: rat)\<rfloor> = int ((2 * a + b) div (2 * b))"
    by (simp only: floor_divide_of_nat_eq)
  then show ?thesis
    by (simp only: round_half_up_def nat_int)
qed

lemma char_of_digits:
  "char_of (48::nat) = CHR ''0''" "char_of (49::nat) = CHR ''1''" "char_of (50::nat) = CHR ''2''"
  "char_of (51::nat) = CHR ''3''" "char_of (52::nat) = CHR ''4''" "char_of (53::nat) = CHR ''5''"
  "char_of (54::nat) = CHR ''6''" "char_of (55::nat) = CHR ''7''" "char_of (56::nat) = CHR ''8''"
  "char_of (57::nat) = CHR ''9''"
proof -
  have e: "\<And>c n. of_char c = (n::nat) \<Longrightarrow> char_of n = c"
    by (metis char_of_char)
  show "char_of (48::nat) = CHR ''0''" by (rule e) simp
  show "char_of (49::nat) = CHR ''1''" by (rule e) simp
  show "char_of (50::nat) = CHR ''2''" by (rule e) simp
  show "char_of (51::nat) = CHR ''3''" by (rule e) simp
  show "char_of (52::nat) = CHR ''4''" by (rule e) simp
  show "char_of (53::nat) = CHR ''5''" by (rule e) simp
  show "char_of (54::nat) = CHR ''6''" by (rule e) simp
  show "char_of (55::nat) = CHR ''7''" by (rule e) simp
  show "char_of (56::nat) = CHR ''8''" by (rule e) simp
  show "char_of (57::nat) = CHR ''9''" by (rule e) simp
qed

lemma round_half_up_numeral_div:
  "round_half_up (numeral a / numeral b) = (2 * numeral a + numeral b) div (2 * numeral b)"
  using round_half_up_fraction [where a = "numeral a" and b = "numeral b", OF zero_less_numeral]
  by (simp only: of_nat_numeral)

lemma round_half_up_one_div:
  "round_half_up (1 / numeral b) = (2 + numeral b) div (2 * numeral b)"
  using round_half_up_fraction [where a = 1 and b = "numeral b", OF zero_less_numeral]
  by (simp only: of_nat_numeral of_nat_1 mult_1_right)

lemma round_half_up_numeral: "round_half_up (numeral a) = numeral a"
  using round_half_up_fraction [where a = "numeral a" and b = 1, OF zero_less_one]
  by (simp only: of_nat_numeral of_nat_1 div_by_1 mult_1_right)

lemma round_half_up_0: "round_half_up 0 = 0"
  by (simp add: round_half_up_def)

lemma round_half_up_1: "round_half_up 1 = 1"
  using round_half_up_fraction [where a = 1 and b = 1, OF zero_less_one]
  by (simp only: of_nat_1 div_by_1 mult_1_right)

lemma fraction_digits_numeral:
  "fraction_digits (numeral k) n = fraction_digits (pred_numeral k) (n div 10) @ [digit_char (n mod 10)]"
  by (simp only: numeral_eq_Suc [of k] fraction_digits.simps)

lemmas round_eval = round_half_up_numeral_div round_half_up_one_div round_half_up_numeral
  round_half_up_0 round_half_up_1

lemma floor_numeral_div: "\<lfloor>(numeral a / numeral b :: rat)\<rfloor> = numeral a div numeral b"
  using floor_divide_of_int_eq [of "numeral a" "numeral b", where ?'a = rat] by simp

lemma floor_one_div: "\<lfloor>(1 / numeral b :: rat)\<rfloor> = 1 div numeral b"
  using floor_divide_of_int_eq [of 1 "numeral b", where ?'a = rat] by simp

lemma shortest_from_numeral:
  "shortest_from (numeral n) u q =
     (case shortest_at q u of Some d \<Rightarrow> d | None \<Rightarrow> shortest_from (pred_numeral n) (u / 10) q)"
  by (simp only: numeral_eq_Suc [of n] shortest_from.simps)

lemmas num_eval = flog_def flog_up.simps flog_down.simps rne_def nearest_int_def tie_even_def
  binade_def quantize_def overflow_def round_double_def floor_numeral_div floor_one_div

lemmas sh_eval = shortest_decimal_def shortest_at_def neighbours_def pick_valid_def closer_def
  shortest_from_numeral shortest_from.simps num_eval

lemmas pf_defs = parseFloat_def trimStart_def ws_seqs_def starts_with_def parse_sign_def is_digit_def
  dot_def scale10_def digits_val_def digit_val_def parse_exponent_def

lemmas fmt_defs = format_en_US_def grouped_def digits_of.simps digit_char_def strip_zeros_def
  sign_text_def infinity_text_def Let_def char_of_digits round_eval fraction_digits_numeral

lemmas san_defs = sanitize_def strip_disallowed_def allowed_def is_digit_def dot_def
  join_empty_def slice1_def is_raw_def

lemma parse_50000: "parseFloat ''50000'' = Num Pos 50000"
  by (simp add: pf_defs) (simp add: num_eval)

lemma parse_4_80: "parseFloat ''4.80'' = Num Pos (5404319552844595 / 1125899906842624)"
  by (simp add: pf_defs) (simp add: num_eval)

lemma parse_dot: "parseFloat ''.'' = NaN"
  by (simp add: pf_defs)

lemma parse_1: "parseFloat ''1'' = Num Pos 1"
  by (simp add: pf_defs) (simp add: num_eval)

lemma parse_0: "parseFloat ''0'' = Num Pos 0"
  by (simp add: pf_defs) (simp add: num_eval)

lemma parse_1234_dot: "parseFloat ''1234.'' = Num Pos 1234"
  by (simp add: pf_defs) (simp add: num_eval)

lemma parse_1_23456: "parseFloat ''1.23456'' = Num Pos (694995494495815 / 562949953421312)"
  by (simp add: pf_defs) (simp add: num_eval)

lemma parse_1_235: "parseFloat ''1.235'' = Num Pos (5561945539802563 / 4503599627370496)"
  by (simp add: pf_defs) (simp add: num_eval)

lemma shortest_1234: "shortest_decimal 1234 = 1234"
  by (simp add: sh_eval)

lemma format_1234: "format_en_US 0 3 (Num Pos 1234) = ''1,234''"
  by (simp add: shortest_1234 fmt_defs)

lemma shortest_1_23456: "shortest_decimal (694995494495815 / 562949953421312) = 3858 / 3125"
  by (simp add: sh_eval)

lemma format_1_23456: "format_en_US 0 3 (Num Pos (694995494495815 / 562949953421312)) = ''1.235''"
  by (simp add: shortest_1_23456 fmt_defs dot_def)

lemma shortest_10416:
  "shortest_decimal (2863311530666667 / 274877906944) = 2604166666666667 / 250000000000"
  by (simp add: sh_eval)

lemma format_10416: "format_en_US 0 0 (Num Pos (2863311530666667 / 274877906944)) = ''10,417''"
  by (simp add: shortest_10416 fmt_defs)

lemma parse_dot_6: "parseFloat ''.6'' = Num Pos (5404319552844595 / 9007199254740992)"
  by (simp add: pf_defs) (simp add: num_eval)

lemma parse_dot_4: "parseFloat ''.4'' = Num Pos (3602879701896397 / 9007199254740992)"
  by (simp add: pf_defs) (simp add: num_eval)

lemma format_1_23456_five:
  "format_en_US 0 5 (Num Pos (694995494495815 / 562949953421312)) = ''1.23456''"
  by (simp add: shortest_1_23456 fmt_defs dot_def)

section \<open>Lengths\<close>

lemma js_length_append: "js_length (a @ b) = js_length a + js_length b"
  by (simp add: js_length_def)

lemma js_length_le: "js_length s \<le> 2 * length s"
proof (induction s)
  case Nil
  show ?case by (simp add: js_length_def)
next
  case (Cons c s)
  have "utf16_units c \<le> 2" by (simp add: utf16_units_def)
  then show ?case using Cons.IH by (simp add: js_length_def)
qed

lemma js_length_filter: "js_length (filter P s) \<le> js_length s"
  by (induction s) (simp_all add: js_length_def)

lemma js_length_takeWhile_dropWhile:
  "js_length s = js_length (takeWhile P s) + js_length (dropWhile P s)"
  using js_length_append [of "takeWhile P s" "dropWhile P s"] by simp

lemma js_length_collapse: "js_length (collapse s) \<le> js_length s"
proof (cases "dropWhile (\<lambda>c. c \<noteq> dot) s")
  case Nil
  then show ?thesis by (simp only: collapse_no_dot order_refl)
next
  case (Cons d r)
  have "js_length (collapse s)
      = js_length (takeWhile (\<lambda>c. c \<noteq> dot) s) + (utf16_units dot + js_length (filter (\<lambda>c. c \<noteq> dot) r))"
    by (simp add: collapse_dot [OF Cons] js_length_def)
  moreover have "js_length s
      = js_length (takeWhile (\<lambda>c. c \<noteq> dot) s) + (utf16_units d + js_length r)"
    using js_length_takeWhile_dropWhile [of s "\<lambda>c. c \<noteq> dot"] by (simp add: Cons js_length_def)
  moreover have "d = dot" using Cons by (rule dropWhile_hd_dot)
  ultimately show ?thesis
    using js_length_filter [of "\<lambda>c. c \<noteq> dot" r] by simp
qed

lemma js_length_sanitize: "js_length (sanitize input) \<le> js_length input"
proof -
  have "js_length (sanitize input) \<le> js_length (strip_disallowed input)"
    by (simp only: sanitize_collapse js_length_collapse)
  also have "\<dots> \<le> js_length input"
    by (simp add: strip_disallowed_def js_length_filter)
  finally show ?thesis .
qed

lemma concat_zeros: "concat (replicate k ''0'') = replicate k CHR ''0''"
  by (induction k) simp_all

lemma js_length_zeros: "js_length (replicate k CHR ''0'') = k"
  by (induction k) (simp_all add: js_length_def utf16_units_def)

lemma js_length_0_dot: "js_length ''0.'' = 2"
  by (simp add: js_length_def utf16_units_def)

lemma js_length_dot: "js_length [dot] = 1"
  by (simp add: js_length_def utf16_units_def dot_def)

text \<open>A text that is not too long is sanitized without an exception.\<close>

lemma cleanedValue_sanitize:
  assumes "js_length input \<le> max_string_length"
  shows "cleanedValue input = Inr (sanitize input)"
proof (cases "length (split dot (strip_disallowed input)) > 2")
  case False
  then show ?thesis
    by (simp add: cleanedValue_def sanitize_def Let_def)
next
  case True
  let ?parts = "split dot (strip_disallowed input)"
  have s: "sanitize input = (hd ?parts @ [dot]) @ join_empty (slice1 ?parts)"
    using True by (simp add: sanitize_def Let_def)
  have "js_length ((hd ?parts @ [dot]) @ join_empty (slice1 ?parts)) \<le> max_string_length"
    using js_length_sanitize [of input] assms by (simp only: s)
  then have l2: "js_length (hd ?parts @ [dot]) + js_length (join_empty (slice1 ?parts)) \<le> max_string_length"
    by (simp only: js_length_append)
  then have l1: "js_length (hd ?parts) + js_length [dot] \<le> max_string_length"
    by (simp add: js_length_append)
  have "cleanedValue input = Inr ((hd ?parts @ [dot]) @ join_empty (slice1 ?parts))"
    using True l1 l2 by (simp add: cleanedValue_def Let_def js_concat_def and_then_def)
  then show ?thesis by (simp only: s)
qed

section \<open>The length of a formatted number\<close>

lemma flog_up_le: "1 \<le> q \<Longrightarrow> of_nat b ^ flog_up b q \<le> q"
proof (induction b q rule: flog_up.induct)
  case (1 b q)
  show ?case
  proof (cases "2 \<le> b \<and> of_nat b \<le> q")
    case False
    then show ?thesis using "1.prems" by (auto simp add: flog_up.simps [of b q])
  next
    case True
    then have bpos: "(0::rat) < of_nat b" by simp
    have "1 \<le> q / of_nat b" using True bpos by (simp add: le_divide_eq)
    then have "of_nat b ^ flog_up b (q / of_nat b) \<le> q / of_nat b"
      using "1.IH" True by simp
    then have "of_nat b * of_nat b ^ flog_up b (q / of_nat b) \<le> q"
      using bpos by (simp add: le_divide_eq mult.commute)
    then show ?thesis using True by (simp add: flog_up.simps [of b q])
  qed
qed

lemma flog_down_ge: "2 \<le> b \<Longrightarrow> 0 < q \<Longrightarrow> 1 \<le> q * of_nat b ^ flog_down b q"
proof (induction b q rule: flog_down.induct)
  case (1 b q)
  show ?case
  proof (cases "2 \<le> b \<and> 0 < q \<and> q < 1")
    case False
    then show ?thesis using "1.prems" by (auto simp add: flog_down.simps [of b q])
  next
    case True
    then have "0 < q * of_nat b" by simp
    then have "1 \<le> q * of_nat b * of_nat b ^ flog_down b (q * of_nat b)"
      using "1.IH" True by simp
    then show ?thesis using True by (simp add: flog_down.simps [of b q] mult.assoc)
  qed
qed

lemma flog10_le:
  assumes "0 < q"
  shows "power_int 10 (flog 10 q) \<le> q"
proof (cases "1 \<le> q")
  case True
  then show ?thesis
    using flog_up_le [of q 10] by (simp add: flog_def)
next
  case False
  have "1 \<le> q * 10 ^ flog_down 10 q"
    using flog_down_ge [of 10 q] assms by simp
  then have "1 / 10 ^ flog_down 10 q \<le> q"
    by (simp add: divide_le_eq)
  then show ?thesis
    using False by (simp add: flog_def power_int_minus field_simps)
qed

lemma shortest_at_le:
  assumes "0 < u" and "shortest_at q u = Some d"
  shows "d \<le> q + u"
proof -
  let ?n = "\<lfloor>q / u\<rfloor>"
  have "of_int ?n \<le> q / u" by simp
  then have lo: "of_int ?n * u \<le> q"
    using assms(1) by (simp add: le_divide_eq)
  then have hi: "of_int (?n + 1) * u \<le> q + u"
    by (simp add: algebra_simps)
  have "d = of_int ?n * u \<or> d = of_int (?n + 1) * u"
    using assms(2)
    by (auto simp: shortest_at_def neighbours_def pick_valid_def closer_def split: if_splits)
  then show ?thesis using lo hi assms(1) by auto
qed

lemma shortest_from_le: "0 < u \<Longrightarrow> u \<le> q \<Longrightarrow> shortest_from n u q \<le> q + u"
proof (induction n arbitrary: u)
  case 0
  then show ?case by simp
next
  case (Suc n)
  show ?case
  proof (cases "shortest_at q u")
    case (Some d)
    then show ?thesis using shortest_at_le [OF Suc.prems(1) Some] by simp
  next
    case None
    have "shortest_from n (u / 10) q \<le> q + u / 10"
      using Suc.prems by (intro Suc.IH) auto
    then show ?thesis using None Suc.prems(1) by simp
  qed
qed

lemma shortest_decimal_le: "shortest_decimal m \<le> 2 * max m 0"
proof (cases "m \<le> 0")
  case True
  then show ?thesis by (simp add: shortest_decimal_def)
next
  case False
  then have pos: "0 < m" by simp
  have u: "0 < (power_int 10 (flog 10 m) :: rat)" by simp
  have "shortest_decimal m \<le> m + power_int 10 (flog 10 m)"
    using shortest_from_le [OF u flog10_le [OF pos]] False by (simp add: shortest_decimal_def)
  then show ?thesis using flog10_le [OF pos] pos by simp
qed

lemma round_half_up_le: "of_nat (round_half_up x) \<le> max x 0 + (1::rat)"
proof (cases "0 \<le> \<lfloor>x + 1 / 2\<rfloor>")
  case True
  have "of_int \<lfloor>x + 1 / 2\<rfloor> \<le> x + 1 / 2" by simp
  then show ?thesis using True by (simp add: round_half_up_def max_def) linarith
next
  case False
  then show ?thesis by (simp add: round_half_up_def max_def)
qed

lemma length_digits_of: "n < 10 ^ k \<Longrightarrow> 0 < k \<Longrightarrow> length (digits_of n) \<le> k"
proof (induction n arbitrary: k rule: digits_of.induct)
  case (1 n)
  show ?case
  proof (cases "n < 10")
    case True
    then show ?thesis using "1.prems" by (simp add: digits_of.simps [of n])
  next
    case False
    obtain j where k: "k = Suc j" using "1.prems"(2) by (cases k) auto
    have "n div 10 < 10 ^ j"
      using "1.prems"(1) k by (simp add: less_mult_imp_div_less mult.commute)
    moreover have "0 < j"
    proof (rule ccontr)
      assume "\<not> 0 < j"
      then have "k = 1" using k by simp
      then show False using "1.prems"(1) False by simp
    qed
    ultimately have "length (digits_of (n div 10)) \<le> j"
      using "1.IH" False by simp
    then show ?thesis using False k by (simp add: digits_of.simps [of n])
  qed
qed

lemma length_group3: "length (group3 xs) \<le> 2 * length xs"
  by (induction xs rule: group3.induct) simp_all

lemma length_grouped: "n < 10 ^ k \<Longrightarrow> 0 < k \<Longrightarrow> length (grouped n) \<le> 2 * k"
  using length_group3 [of "rev (digits_of n)"] length_digits_of [of n k]
  by (simp add: grouped_def)

lemma length_strip_zeros: "length (strip_zeros lo ds) \<le> length ds"
proof -
  have "length (dropWhile (\<lambda>c. c = CHR ''0'') (rev (drop lo ds))) \<le> length (rev (drop lo ds))"
    by (rule length_dropWhile_le)
  then show ?thesis by (simp add: strip_zeros_def)
qed

lemma length_fraction_digits: "length (fraction_digits w n) = w"
  by (induction w arbitrary: n) simp_all

lemma length_format_finite:
  assumes "m < 2 ^ 1024"
  shows "length (format_en_US 0 3 (Num s m)) \<le> 700"
proof -
  define scaled where "scaled = round_half_up (shortest_decimal m * 10 ^ 3)"
  have "shortest_decimal m \<le> 2 * max m 0" by (rule shortest_decimal_le)
  also have "\<dots> \<le> 2 * 2 ^ 1024" using assms by (simp add: max_def)
  finally have "max (shortest_decimal m * 10 ^ 3) 0 \<le> 2 * 2 ^ 1024 * 10 ^ 3"
    by (simp add: max_def)
  then have "of_nat scaled \<le> 2 * 2 ^ 1024 * 10 ^ 3 + (1::rat)"
    using round_half_up_le [of "shortest_decimal m * 10 ^ 3"] unfolding scaled_def by linarith
  also have "\<dots> < 10 ^ 313" by simp
  finally have "(of_nat scaled :: rat) < of_nat (10 ^ 313)" by simp
  then have sc: "scaled < 10 ^ 313" by (simp only: of_nat_less_iff)
  have "scaled div 10 ^ 3 \<le> scaled" by simp
  then have "scaled div 10 ^ 3 < 10 ^ 313" using sc by linarith
  then have g: "length (grouped (scaled div 10 ^ 3)) \<le> 2 * 313"
    by (rule length_grouped) simp
  have f: "length (strip_zeros 0 (fraction_digits 3 (scaled mod 10 ^ 3))) \<le> 3"
    using length_strip_zeros [of 0 "fraction_digits 3 (scaled mod 10 ^ 3)"]
    by (simp only: length_fraction_digits)
  have sg: "length (sign_text s) \<le> 1" by (cases s) (simp_all add: sign_text_def)
  have "format_en_US 0 3 (Num s m) =
      sign_text s @ grouped (scaled div 10 ^ 3) @
      (if strip_zeros 0 (fraction_digits 3 (scaled mod 10 ^ 3)) = [] then []
       else dot # strip_zeros 0 (fraction_digits 3 (scaled mod 10 ^ 3)))"
    by (simp add: format_en_US_def Let_def scaled_def)
  then show ?thesis using g f sg by simp
qed

lemma length_format_special:
  "length (format_en_US 0 3 NaN) \<le> 700" "length (format_en_US 0 3 (Infinity s)) \<le> 700"
  by (cases s; simp add: format_en_US_def sign_text_def infinity_text_def)+

lemma round_double_bounded: "round_double s q = Num t m \<Longrightarrow> m < 2 ^ 1024"
  by (auto simp: round_double_def overflow_def split: if_splits)

lemma parseFloat_cases:
  "parseFloat v = NaN \<or> (\<exists>s. parseFloat v = Infinity s) \<or> (\<exists>s q. parseFloat v = round_double s q)"
  by (auto simp: parseFloat_def Let_def split: prod.splits)

lemma length_format_parsed: "length (format_en_US 0 3 (parseFloat v)) \<le> 700"
proof (cases "parseFloat v")
  case NaN
  then show ?thesis by (simp add: length_format_special)
next
  case (Infinity s)
  then show ?thesis by (simp add: length_format_special)
next
  case (Num s m)
  from parseFloat_cases [of v] consider
      "parseFloat v = NaN"
    | t where "parseFloat v = Infinity t"
    | t q where "parseFloat v = round_double t q"
    by blast
  then have "m < 2 ^ 1024"
  proof cases
    case 1
    then show ?thesis using Num by simp
  next
    case 2
    then show ?thesis using Num by simp
  next
    case 3
    then have "round_double t q = Num s m" using Num by simp
    then show ?thesis by (rule round_double_bounded)
  qed
  then have "length (format_en_US 0 3 (Num s m)) \<le> 700" by (rule length_format_finite)
  then show ?thesis by (simp only: Num)
qed

lemma format_parsed_fits:
  "js_length (format_en_US 0 3 (parseFloat v)) + js_length [dot] \<le> max_string_length"
proof -
  have "js_length (format_en_US 0 3 (parseFloat v)) \<le> 2 * 700"
    using js_length_le [of "format_en_US 0 3 (parseFloat v)"] length_format_parsed [of v] by linarith
  then show ?thesis by (simp add: js_length_dot max_string_length_def)
qed

text \<open>The display text of a value, as the effect and the blur handler compute it.\<close>

lemma syncDisplay_returns:
  "syncDisplay v =
     Inr (if v = [] then []
          else if isNaN (parseFloat v) then v
          else if endsWith v dot then format_en_US 0 3 (parseFloat v) @ [dot]
          else format_en_US 0 3 (parseFloat v))"
  using format_parsed_fits [of v]
  by (simp add: syncDisplay_def Let_def toLocaleString_def and_then_def js_concat_def)

lemma handleBlur_returns:
  "handleBlur f =
     Inr (if value_prop f = [] then (f\<lparr>displayValue := []\<rparr>, None)
          else if isNaN (parseFloat (value_prop f)) then (f\<lparr>displayValue := []\<rparr>, Some [])
          else (f\<lparr>displayValue := format_en_US 0 3 (parseFloat (value_prop f))\<rparr>, None))"
  by (simp add: handleBlur_def Let_def toLocaleString_def and_then_def)

lemma blur_returns:
  "blur f =
     Inr (if value_prop f = [] then f\<lparr>displayValue := []\<rparr>
          else if isNaN (parseFloat (value_prop f)) then f\<lparr>value_prop := [], displayValue := []\<rparr>
          else f\<lparr>displayValue := format_en_US 0 3 (parseFloat (value_prop f))\<rparr>)"
  by (simp add: blur_def handleBlur_returns and_then_def emit_def)

text \<open>When \<open>formatNumber\<close> raises.\<close>

lemma formatNumber_zero_branch:
  assumes "isNaN n \<or> is_zero n"
  shows "formatNumber n d =
     (if d < 0 \<or> int max_string_length < d + 2 then Inl RangeError
      else Inr (''0.'' @ replicate (nat d) CHR ''0''))"
proof (cases "d < 0 \<or> int max_string_length < d")
  case True
  then show ?thesis
    using assms by (auto simp: formatNumber_def repeat_def and_then_def js_length_def utf16_units_def)
next
  case False
  then have r: "repeat ''0'' d = Inr (replicate (nat d) CHR ''0'')"
    by (auto simp: repeat_def concat_zeros js_length_def utf16_units_def)
  have l: "js_length ''0.'' + js_length (replicate (nat d) CHR ''0'') = 2 + nat d"
    by (simp only: js_length_0_dot js_length_zeros)
  have c: "(max_string_length < 2 + nat d) = (int max_string_length < d + 2)"
    using False by auto
  have "formatNumber n d = js_concat ''0.'' (replicate (nat d) CHR ''0'')"
    using assms by (simp add: formatNumber_def r and_then_def)
  then show ?thesis
    using False by (simp only: js_concat_def l c) auto
qed

lemma formatNumber_other_branch:
  assumes "\<not> (isNaN n \<or> is_zero n)"
  shows "formatNumber n d =
     (if d < 0 \<or> 100 < d then Inl RangeError else Inr (format_en_US (nat d) (nat d) n))"
  using assms by (auto simp: formatNumber_def toLocaleString_def)

section \<open>Underflow and overflow\<close>

text \<open>
  At the ends of the range \<open>round_double\<close> does what the platform does: a magnitude of
  at most \<open>2 ^ -1075\<close>, half the least subnormal number, becomes zero, and a magnitude
  of \<open>2 ^ 1024\<close> or more becomes an infinity.
\<close>

lemma flog_down_ge_exp: "0 < q \<Longrightarrow> q < 1 / 2 ^ n \<Longrightarrow> n \<le> flog_down 2 q"
proof (induction n arbitrary: q)
  case 0
  then show ?case by simp
next
  case (Suc n)
  have q1: "q < 1"
  proof -
    have "(1::rat) \<le> 2 ^ Suc n" by (rule one_le_power) simp
    then have "(1::rat) / 2 ^ Suc n \<le> 1" by (simp del: power_Suc)
    then show ?thesis using Suc.prems(2) by linarith
  qed
  have "q * 2 < 1 / 2 ^ n"
    using Suc.prems(2) by (simp add: field_simps)
  then have "n \<le> flog_down 2 (q * 2)"
    using Suc.IH [of "q * 2"] Suc.prems(1) by simp
  then show ?case
    using Suc.prems(1) q1 by (subst flog_down.simps) simp
qed

lemma round_double_underflow:
  assumes "0 < q" and "q \<le> 1 / 2 ^ 1075"
  shows "round_double s q = Num s 0"
proof -
  have "q < 1 / 2 ^ 1022"
  proof -
    have "(1::rat) / 2 ^ 1075 < 1 / 2 ^ 1022"
      by (intro divide_strict_left_mono power_strict_increasing) auto
    then show ?thesis using assms(2) by linarith
  qed
  then have "1022 \<le> flog_down 2 q"
    using flog_down_ge_exp [of q 1022] assms(1) by simp
  moreover have "q < 1"
  proof -
    have "(1::rat) < 2 ^ 1075" by (rule one_less_power) simp_all
    then have "(1::rat) / 2 ^ 1075 < 1" by simp
    then show ?thesis using assms(2) by linarith
  qed
  ultimately have b: "binade q = - 1074"
    by (simp add: binade_def flog_def)
  have u: "power_int (2::rat) (- 1074) = 1 / 2 ^ 1074"
    by (simp add: power_int_def field_simps)
  have x: "q / (1 / 2 ^ 1074) \<le> 1 / 2"
  proof -
    have "q * 2 ^ 1074 \<le> (1 / 2 ^ 1075) * 2 ^ 1074"
      using assms(2) by (intro mult_right_mono) auto
    also have "\<dots> = 1 / 2"
      by (simp add: power_Suc [symmetric] del: power_Suc)
    finally show ?thesis by simp
  qed
  have x0: "0 < q / (1 / 2 ^ 1074)" using assms(1) by simp
  have "\<lfloor>q / (1 / 2 ^ 1074)\<rfloor> = 0"
    using x x0 by (intro floor_unique) auto
  then have "rne (q / (1 / 2 ^ 1074)) = 0"
    using x by (auto simp: rne_def nearest_int_def tie_even_def)
  then show ?thesis
    using assms(1) by (simp add: round_double_def b u quantize_def overflow_def)
qed

lemma flog_up_ge_exp: "2 ^ n \<le> q \<Longrightarrow> n \<le> flog_up 2 q"
proof (induction n arbitrary: q)
  case 0
  then show ?case by simp
next
  case (Suc n)
  have one: "(1::rat) \<le> 2 ^ n" by (rule one_le_power) simp
  have two: "2 * 2 ^ n \<le> q" using Suc.prems by simp
  have q2: "2 \<le> q" using one two by linarith
  have "2 ^ n \<le> q / 2" using two by simp
  then have "n \<le> flog_up 2 (q / 2)" by (rule Suc.IH)
  then show ?case
    using q2 by (subst flog_up.simps) simp
qed

lemma rne_ge_floor: "\<lfloor>x\<rfloor> \<le> rne x"
  by (simp add: rne_def nearest_int_def tie_even_def)

lemma quantize_ge_power:
  assumes "k \<le> e" and "2 ^ e \<le> q"
  shows "2 ^ e \<le> quantize q (2 ^ (e - k))"
proof -
  have split: "(2::rat) ^ e = 2 ^ k * 2 ^ (e - k)"
    using assms(1) by (simp add: power_add [symmetric])
  have "(2::rat) ^ k \<le> q / 2 ^ (e - k)"
    using assms(2) split by (simp add: field_simps)
  then have "of_int (2 ^ k) \<le> q / 2 ^ (e - k)"
    by simp
  then have "(2::int) ^ k \<le> \<lfloor>q / 2 ^ (e - k)\<rfloor>"
    by (simp only: le_floor_iff)
  then have "(2::int) ^ k \<le> rne (q / 2 ^ (e - k))"
    using rne_ge_floor [of "q / 2 ^ (e - k)"] by linarith
  then have "(of_int (2 ^ k)::rat) \<le> of_int (rne (q / 2 ^ (e - k)))"
    by (simp only: of_int_le_iff)
  then have "(2::rat) ^ k \<le> of_int (rne (q / 2 ^ (e - k)))"
    by simp
  then have "(2::rat) ^ k * 2 ^ (e - k) \<le> of_int (rne (q / 2 ^ (e - k))) * 2 ^ (e - k)"
    by (intro mult_right_mono) auto
  then show ?thesis
    unfolding quantize_def split [symmetric] .
qed

lemma round_double_overflow:
  assumes "2 ^ 1024 \<le> q"
  shows "round_double s q = Infinity s"
proof -
  define e where "e = flog_up 2 q"
  have "(1::rat) \<le> 2 ^ 1024" by (rule one_le_power) simp
  then have q1: "1 \<le> q" using assms by linarith
  have e1024: "1024 \<le> e"
    unfolding e_def using assms by (rule flog_up_ge_exp)
  have le: "2 ^ e \<le> q"
    using flog_up_le [OF q1, of 2] by (simp add: e_def)
  have b: "binade q = int (e - 52)"
    using q1 e1024 by (simp add: binade_def flog_def e_def)
  have u: "power_int (2::rat) (int (e - 52)) = 2 ^ (e - 52)"
    by (simp add: power_int_def)
  have "(2::rat) ^ e \<le> quantize q (2 ^ (e - 52))"
    using e1024 le by (intro quantize_ge_power) auto
  moreover have "(2::rat) ^ 1024 \<le> 2 ^ e"
    using e1024 by (intro power_increasing) auto
  ultimately have "(2::rat) ^ 1024 \<le> quantize q (2 ^ (e - 52))"
    by (rule order_trans [rotated])
  moreover have "0 < q" using q1 by linarith
  ultimately show ?thesis
    by (simp add: round_double_def b u overflow_def)
qed

lemma example_underflow: "parseFloat ''1e-400'' = Num Pos 0"
  by (simp add: pf_defs) (simp add: round_double_underflow)

lemma example_overflow: "parseFloat ''1e400'' = Infinity Pos"
  by (simp add: pf_defs) (simp add: round_double_overflow)

section \<open>Examples of displayed numbers\<close>

text \<open>
  The display text of \<open>2 ^ 64\<close> and of a value with more digits than a double holds:
  the digits are the shortest ones that give the double back.
\<close>

lemma example_2_64:
  "syncDisplay ''18446744073709551616'' = Inr ''18,446,744,073,709,552,000''"
proof -
  have p: "parseFloat ''18446744073709551616'' = Num Pos 18446744073709551616"
    by (simp add: pf_defs) (simp add: num_eval)
  have s: "shortest_decimal 18446744073709551616 = 18446744073709552000"
    by (simp add: sh_eval)
  have "format_en_US 0 3 (Num Pos 18446744073709551616) = ''18,446,744,073,709,552,000''"
    by (simp add: s fmt_defs)
  then show ?thesis
    by (simp add: syncDisplay_returns p isNaN_def endsWith_def dot_def)
qed

lemma example_17_digits:
  "syncDisplay ''123456789012345.678'' = Inr ''123,456,789,012,345.67''"
proof -
  have p: "parseFloat ''123456789012345.678'' = Num Pos (7901234496790123 / 64)"
    by (simp add: pf_defs) (simp add: num_eval)
  have s: "shortest_decimal (7901234496790123 / 64) = 12345678901234567 / 100"
    by (simp add: sh_eval)
  have "format_en_US 0 3 (Num Pos (7901234496790123 / 64)) = ''123,456,789,012,345.67''"
    by (simp add: s fmt_defs dot_def)
  then show ?thesis
    by (simp add: syncDisplay_returns p isNaN_def endsWith_def dot_def)
qed

section \<open>The claims\<close>

text \<open>
  Claim C1.  Each of the four results is exactly \<open>0\<close> when one of the two texts is empty
  or does not parse to a number, and is otherwise the floating-point quotient (for
  \<open>phpToPkrResult\<close> the product) of the two parsed numbers: \<open>js_div\<close> and \<open>js_mult\<close>
  give the double nearest to the exact result, as the operators do, and nothing rounds
  the result to a number of decimals before it is formatted.
\<close>

theorem C1_results_guarded:
  "(a = [] \<or> b = [] \<or> isNaN (parseFloat a) \<or> isNaN (parseFloat b) \<longrightarrow>
      pkrToPhpResult a b = zero \<and> phpToPkrResult a b = zero
      \<and> directPkrPhpRate a b = zero \<and> crossUsdRate a b = zero)
   \<and> (a \<noteq> [] \<and> b \<noteq> [] \<and> \<not> isNaN (parseFloat a) \<and> \<not> isNaN (parseFloat b) \<longrightarrow>
      pkrToPhpResult a b = js_div (parseFloat a) (parseFloat b)
      \<and> phpToPkrResult a b = js_mult (parseFloat a) (parseFloat b)
      \<and> directPkrPhpRate a b = js_div (parseFloat a) (parseFloat b)
      \<and> crossUsdRate a b = js_div (parseFloat a) (parseFloat b))"
proof (intro conjI impI)
  assume bad: "a = [] \<or> b = [] \<or> isNaN (parseFloat a) \<or> isNaN (parseFloat b)"
  then show "pkrToPhpResult a b = zero"
    unfolding pkrToPhpResult_def truthy_def by auto
  from bad show "phpToPkrResult a b = zero"
    unfolding phpToPkrResult_def truthy_def by auto
  from bad show "directPkrPhpRate a b = zero"
    unfolding directPkrPhpRate_def truthy_def by auto
  from bad show "crossUsdRate a b = zero"
    unfolding crossUsdRate_def truthy_def by auto
next
  assume ok: "a \<noteq> [] \<and> b \<noteq> [] \<and> \<not> isNaN (parseFloat a) \<and> \<not> isNaN (parseFloat b)"
  then show "pkrToPhpResult a b = js_div (parseFloat a) (parseFloat b)"
    unfolding pkrToPhpResult_def truthy_def by simp
  from ok show "phpToPkrResult a b = js_mult (parseFloat a) (parseFloat b)"
    unfolding phpToPkrResult_def truthy_def by simp
  from ok show "directPkrPhpRate a b = js_div (parseFloat a) (parseFloat b)"
    unfolding directPkrPhpRate_def truthy_def by simp
  from ok show "crossUsdRate a b = js_div (parseFloat a) (parseFloat b)"
    unfolding crossUsdRate_def truthy_def by simp
qed

theorem C1_results_guarded_witness:
  "pkrToPhpResult ''50000'' ''4.80'' = Num Pos (2863311530666667 / 274877906944)
   \<and> phpToPkrResult ''50000'' ''4.80'' = Num Pos 240000
   \<and> directPkrPhpRate ''.6'' ''.4'' = Num Pos (6755399441055743 / 4503599627370496)
   \<and> pkrToPhpResult [] ''4.80'' = zero
   \<and> phpToPkrResult ''50000'' ''.'' = zero"
proof -
  have ok: "''50000'' \<noteq> [] \<and> ''4.80'' \<noteq> [] \<and> \<not> isNaN (parseFloat ''50000'') \<and> \<not> isNaN (parseFloat ''4.80'')"
    by (simp add: parse_50000 parse_4_80 isNaN_def)
  have ok2: "''.6'' \<noteq> [] \<and> ''.4'' \<noteq> [] \<and> \<not> isNaN (parseFloat ''.6'') \<and> \<not> isNaN (parseFloat ''.4'')"
    by (simp add: parse_dot_6 parse_dot_4 isNaN_def)
  have bad1: "[] = ([]::string) \<or> ''4.80'' = [] \<or> isNaN (parseFloat []) \<or> isNaN (parseFloat ''4.80'')"
    by simp
  have bad2: "''50000'' = [] \<or> ''.'' = [] \<or> isNaN (parseFloat ''50000'') \<or> isNaN (parseFloat ''.'')"
    by (simp add: parse_dot isNaN_def)
  show ?thesis
    using C1_results_guarded [of "''50000''" "''4.80''"] C1_results_guarded [of "[]" "''4.80''"]
      C1_results_guarded [of "''50000''" "''.''"] C1_results_guarded [of "''.6''" "''.4''"]
      ok ok2 bad1 bad2
    by (simp add: parse_50000 parse_4_80 parse_dot_6 parse_dot_4 sign_mult_def num_eval)
qed

text \<open>
  Claim C2, as amended.  For \<open>NaN\<close> and for zero, and every non-negative integer
  \<open>decimals\<close> for which the text still fits the platform's strings (\<open>decimals + 2\<close> is at
  most \<open>max_string_length\<close>), \<open>formatNumber\<close> returns \<open>0\<close>, then \<open>.\<close>, then \<open>decimals\<close>
  zeros; with two decimals this is \<open>0.00\<close>, also for \<open>NaN\<close>.
\<close>

theorem C2_format_zero_or_nan_fitting:
  assumes "0 \<le> decimals" and "decimals + 2 \<le> int max_string_length" and "isNaN n \<or> is_zero n"
  shows "formatNumber n decimals = Inr (''0'' @ ''.'' @ replicate (nat decimals) CHR ''0'')
       \<and> formatNumber NaN 2 = Inr ''0.00'' \<and> formatNumber zero 2 = Inr ''0.00''"
proof -
  have two: "replicate (nat 2) CHR ''0'' = ''00''"
    by (simp add: numeral_2_eq_2)
  have "formatNumber NaN 2 = Inr ''0.00''"
    using two by (simp add: formatNumber_zero_branch isNaN_def max_string_length_def)
  moreover have "formatNumber zero 2 = Inr ''0.00''"
    using two by (simp add: formatNumber_zero_branch is_zero_def zero_def max_string_length_def)
  moreover have "formatNumber n decimals = Inr (''0'' @ ''.'' @ replicate (nat decimals) CHR ''0'')"
    using assms by (simp add: formatNumber_zero_branch)
  ultimately show ?thesis by simp
qed

theorem C2_format_zero_or_nan_fitting_witness:
  "(0::int) \<le> 3 \<and> 3 + 2 \<le> int max_string_length \<and> (isNaN NaN \<or> is_zero NaN)
   \<and> formatNumber NaN 3 = Inr ''0.000''"
proof -
  have h1: "(0::int) \<le> 3" by simp
  have h2: "3 + 2 \<le> int max_string_length" by (simp add: max_string_length_def)
  have h3: "isNaN NaN \<or> is_zero NaN" by (simp add: isNaN_def)
  have "replicate (nat 3) CHR ''0'' = ''000''"
    by (simp add: numeral_3_eq_3)
  then show ?thesis
    using h1 h2 h3 C2_format_zero_or_nan_fitting [OF h1 h2 h3] by simp
qed

text \<open>
  Claim C2 as stated, for every non-negative integer \<open>decimals\<close>, fails where the text
  would be longer than the platform's strings: the \<open>+\<close> of the zero branch raises.
\<close>

theorem C2_format_zero_too_long:
  "(0::int) \<le> 536870887 \<and> is_zero zero \<and> formatNumber zero 536870887 = Inl RangeError"
  by (simp add: formatNumber_zero_branch is_zero_def zero_def max_string_length_def)

text \<open>
  Claim C3 says that zero with no decimals is formatted as \<open>0\<close>.  The zero branch of
  \<open>formatNumber\<close> always writes the \<open>.\<close>, so the result is \<open>0.\<close>; the other branch, for a
  number that is not zero, writes no \<open>.\<close> when there are no decimals.
\<close>

theorem C3_format_zero_no_decimals:
  "formatNumber zero 0 = Inr ''0.''
   \<and> formatNumber (pkrToPhpResult [] ''4.80'') 0 = Inr ''0.''
   \<and> formatNumber (pkrToPhpResult ''50000'' ''4.80'') 0 = Inr ''10,417''"
proof -
  have "formatNumber zero 0 = Inr ''0.''"
    by (simp add: formatNumber_zero_branch is_zero_def zero_def max_string_length_def)
  moreover have "pkrToPhpResult [] ''4.80'' = zero"
    by (simp add: pkrToPhpResult_def truthy_def)
  moreover have "pkrToPhpResult ''50000'' ''4.80'' = Num Pos (2863311530666667 / 274877906944)"
    by (simp add: pkrToPhpResult_def truthy_def parse_50000 parse_4_80 isNaN_def sign_mult_def
        num_eval)
  moreover have "formatNumber (Num Pos (2863311530666667 / 274877906944)) 0 = Inr ''10,417''"
    by (simp add: formatNumber_other_branch isNaN_def is_zero_def format_10416)
  ultimately show ?thesis by simp
qed

text \<open>
  Claim C4 says that the display text of a RawAmount, re-parsed without its grouping
  separators, is the number the RawAmount parses to.  \<open>toLocaleString\<close> is called
  without options and keeps three fraction digits: the display text of \<open>1.23456\<close> is
  \<open>1.235\<close>, which parses to another number.
\<close>

theorem C4_round_trip_fails:
  "is_raw ''1.23456'' \<and> ''1.23456'' \<noteq> [] \<and> \<not> isNaN (parseFloat ''1.23456'')
   \<and> syncDisplay ''1.23456'' = Inr ''1.235''
   \<and> parseFloat (ungroup ''1.235'') \<noteq> parseFloat ''1.23456''"
proof -
  have d: "syncDisplay ''1.23456'' = Inr ''1.235''"
    by (simp add: syncDisplay_returns parse_1_23456 format_1_23456 isNaN_def endsWith_def dot_def)
  have u: "ungroup ''1.235'' = ''1.235''"
    by (simp add: ungroup_def)
  show ?thesis
    by (simp add: d u parse_1_23456 parse_1_235 isNaN_def san_defs)
qed

text \<open>
  Claim C5 says that the display text of a RawAmount that parses is the grouped
  representation of the parsed number.  For \<open>1.23456\<close> that representation is
  \<open>1.23456\<close>; the display text is \<open>1.235\<close>.
\<close>

theorem C5_display_keeps_three_decimals:
  "\<not> endsWith ''1.23456'' dot
   \<and> format_en_US 0 5 (parseFloat ''1.23456'') = ''1.23456''
   \<and> syncDisplay ''1.23456'' = Inr ''1.235''
   \<and> syncDisplay ''1234.'' = Inr ''1,234.''"
  by (simp add: syncDisplay_returns parse_1_23456 format_1_23456 format_1_23456_five
      parse_1234_dot format_1234 isNaN_def endsWith_def dot_def)

text \<open>
  Claim C6 says that on blur the display text of a value that parses is the grouped
  representation of the number, the value staying as it is.  The value stays, and for
  \<open>1234.\<close> the display text is \<open>1,234\<close>; for \<open>1.23456\<close> it is \<open>1.235\<close>.
\<close>

theorem C6_blur_keeps_three_decimals:
  "blur \<lparr>value_prop = ''1.23456'', displayValue = ''1.23456''\<rparr>
     = Inr \<lparr>value_prop = ''1.23456'', displayValue = ''1.235''\<rparr>
   \<and> handleBlur \<lparr>value_prop = ''1.23456'', displayValue = ''1.23456''\<rparr>
     = Inr (\<lparr>value_prop = ''1.23456'', displayValue = ''1.235''\<rparr>, None)
   \<and> blur \<lparr>value_prop = ''1234.'', displayValue = ''1,234.''\<rparr>
     = Inr \<lparr>value_prop = ''1234.'', displayValue = ''1,234''\<rparr>"
  by (simp add: blur_returns handleBlur_returns parse_1_23456 format_1_23456 parse_1234_dot
      format_1234 isNaN_def)

text \<open>
  Claim C7.  For every input string, whatever characters it holds, the sanitized text
  contains only digits and \<open>.\<close>, and at most one \<open>.\<close>.
\<close>

theorem C7_sanitize_digits_one_dot:
  "list_all (\<lambda>c. is_digit c \<or> c = dot) (sanitize s) \<and> count_list (sanitize s) dot \<le> 1"
proof -
  have "is_raw (sanitize s)" by (rule is_raw_sanitize)
  then show ?thesis
    by (simp add: is_raw_def allowed_def list_all_iff)
qed

text \<open>
  Claim C8.  When the input holds two or more \<open>.\<close>, the sanitized text holds exactly one
  \<open>.\<close>; it stands where the first \<open>.\<close> of the stripped input stands (the text in front of
  it is the same), and the digits of the input are all kept, in their order.
\<close>

theorem C8_collapse_extra_dots:
  assumes "2 \<le> count_list s dot"
  shows "count_list (sanitize s) dot = 1
       \<and> takeWhile (\<lambda>c. c \<noteq> dot) (sanitize s) = takeWhile (\<lambda>c. c \<noteq> dot) (strip_disallowed s)
       \<and> filter is_digit (sanitize s) = filter is_digit s"
proof -
  have "filter is_digit (strip_disallowed s) = filter is_digit s"
    by (induction s) (auto simp: strip_disallowed_def allowed_def)
  then show ?thesis
    using assms
    by (simp add: sanitize_collapse count_collapse count_strip takeWhile_collapse filter_digit_collapse)
qed

theorem C8_collapse_extra_dots_witness:
  "2 \<le> count_list ''1a2.3.4,5..6'' dot
   \<and> sanitize ''1a2.3.4,5..6'' = ''12.3456''
   \<and> count_list (sanitize ''1a2.3.4,5..6'') dot = 1
   \<and> filter is_digit (sanitize ''1a2.3.4,5..6'') = filter is_digit ''1a2.3.4,5..6''"
proof -
  have h: "2 \<le> count_list ''1a2.3.4,5..6'' dot" by (simp add: dot_def)
  have v: "sanitize ''1a2.3.4,5..6'' = ''12.3456''" by (simp add: san_defs)
  show ?thesis
    using h v C8_collapse_extra_dots [OF h] by simp
qed

text \<open>
  Claim C9 says that no operation throws for any input.  \<open>formatNumber\<close> passes
  \<open>decimals\<close> to \<open>toLocaleString\<close> as the number of fraction digits, which the platform
  accepts up to 100 only.
\<close>

theorem C9_never_throws_counterexample:
  "formatNumber (Num Pos 1) 101 = Inl RangeError
   \<and> formatNumber (Infinity Pos) 101 = Inl RangeError"
  by (simp add: formatNumber_other_branch isNaN_def is_zero_def)

text \<open>
  Claim C9, as amended.  Sanitization of a text the platform can hold, display
  synchronization and blur return without an exception, whatever the text or the
  field.  \<open>formatNumber\<close> raises exactly when \<open>decimals\<close> is negative, or above 100 for
  a number that is neither \<open>NaN\<close> nor zero, or too large for the zero text to fit a
  string; so for \<open>decimals\<close> from 0 to 100 (the application passes 0 and 2) it returns
  for every number, the infinities included.  A value that is not empty and does not
  parse is shown as it is by display synchronization, is cleared together with its
  display text on blur, and gives the result \<open>0\<close>.
\<close>

theorem C9_throws_only_for_decimals_out_of_range:
  "(js_length input \<le> max_string_length \<longrightarrow>
      handleChange f input = Inr (f\<lparr>displayValue := sanitize input\<rparr>, Some (sanitize input)))
   \<and> (\<exists>shown. syncDisplay v = Inr shown)
   \<and> (\<exists>r. handleBlur f = Inr r) \<and> (\<exists>g. blur f = Inr g)
   \<and> (formatNumber n decimals = Inl RangeError \<longleftrightarrow>
        decimals < 0
        \<or> (if isNaN n \<or> is_zero n then int max_string_length < decimals + 2 else 100 < decimals))
   \<and> (0 \<le> decimals \<and> decimals \<le> 100 \<longrightarrow>
        (\<exists>out. formatNumber n decimals = Inr out)
        \<and> formatNumber (Infinity Pos) decimals = Inr infinity_text
        \<and> formatNumber (Infinity Neg) decimals = Inr (''-'' @ infinity_text))
   \<and> (v \<noteq> [] \<and> isNaN (parseFloat v) \<longrightarrow>
        syncDisplay v = Inr v
        \<and> blur \<lparr>value_prop = v, displayValue = d\<rparr> = Inr \<lparr>value_prop = [], displayValue = []\<rparr>
        \<and> pkrToPhpResult v b = zero \<and> pkrToPhpResult b v = zero
        \<and> phpToPkrResult v b = zero \<and> phpToPkrResult b v = zero
        \<and> directPkrPhpRate v b = zero \<and> directPkrPhpRate b v = zero
        \<and> crossUsdRate v b = zero \<and> crossUsdRate b v = zero)"
proof -
  have change: "handleChange f input = Inr (f\<lparr>displayValue := sanitize input\<rparr>, Some (sanitize input))"
    if "js_length input \<le> max_string_length"
    using that by (simp add: handleChange_def cleanedValue_sanitize and_then_def)
  have sync: "\<exists>shown. syncDisplay v = Inr shown"
    by (simp add: syncDisplay_returns)
  have hb: "\<exists>r. handleBlur f = Inr r"
    by (simp add: handleBlur_returns)
  have bl: "\<exists>g. blur f = Inr g"
    by (simp add: blur_returns)
  have raises: "formatNumber n decimals = Inl RangeError \<longleftrightarrow>
        decimals < 0
        \<or> (if isNaN n \<or> is_zero n then int max_string_length < decimals + 2 else 100 < decimals)"
  proof (cases "isNaN n \<or> is_zero n")
    case True
    then show ?thesis by (auto simp: formatNumber_zero_branch)
  next
    case False
    then show ?thesis by (auto simp: formatNumber_other_branch)
  qed
  have fits: "\<not> int max_string_length < decimals + 2" if "decimals \<le> 100"
    using that by (simp add: max_string_length_def)
  have inrange: "(\<exists>out. formatNumber n decimals = Inr out)
        \<and> formatNumber (Infinity Pos) decimals = Inr infinity_text
        \<and> formatNumber (Infinity Neg) decimals = Inr (''-'' @ infinity_text)"
    if "0 \<le> decimals \<and> decimals \<le> 100"
  proof -
    have "formatNumber n decimals \<noteq> Inl RangeError"
      using raises that fits by auto
    then have "\<exists>out. formatNumber n decimals = Inr out"
      by (cases "formatNumber n decimals") (auto intro: error.exhaust)
    moreover have "formatNumber (Infinity Pos) decimals = Inr infinity_text"
      using that
      by (simp add: formatNumber_other_branch isNaN_def is_zero_def format_en_US_def sign_text_def)
    moreover have "formatNumber (Infinity Neg) decimals = Inr (''-'' @ infinity_text)"
      using that
      by (simp add: formatNumber_other_branch isNaN_def is_zero_def format_en_US_def sign_text_def)
    ultimately show ?thesis by simp
  qed
  have degrade: "syncDisplay v = Inr v
        \<and> blur \<lparr>value_prop = v, displayValue = d\<rparr> = Inr \<lparr>value_prop = [], displayValue = []\<rparr>
        \<and> pkrToPhpResult v b = zero \<and> pkrToPhpResult b v = zero
        \<and> phpToPkrResult v b = zero \<and> phpToPkrResult b v = zero
        \<and> directPkrPhpRate v b = zero \<and> directPkrPhpRate b v = zero
        \<and> crossUsdRate v b = zero \<and> crossUsdRate b v = zero"
    if "v \<noteq> [] \<and> isNaN (parseFloat v)"
    using that
    by (simp add: syncDisplay_returns blur_returns pkrToPhpResult_def
        phpToPkrResult_def directPkrPhpRate_def crossUsdRate_def)
  show ?thesis
    using change sync hb bl raises inrange degrade by blast
qed

theorem C9_throws_only_for_decimals_out_of_range_witness:
  "handleChange \<lparr>value_prop = ''12'', displayValue = ''12''\<rparr> ''1a2.3.4,5..6''
     = Inr (\<lparr>value_prop = ''12'', displayValue = ''12.3456''\<rparr>, Some ''12.3456'')
   \<and> pkrToPhpResult ''1'' ''0'' = Infinity Pos
   \<and> formatNumber (pkrToPhpResult ''1'' ''0'') 2 = Inr infinity_text
   \<and> formatNumber (Infinity Neg) 0 = Inr (''-'' @ infinity_text)
   \<and> syncDisplay ''.'' = Inr ''.''
   \<and> blur \<lparr>value_prop = ''.'', displayValue = ''.''\<rparr> = Inr \<lparr>value_prop = [], displayValue = []\<rparr>
   \<and> crossUsdRate ''.'' ''4.80'' = zero"
proof -
  let ?f = "\<lparr>value_prop = ''12'', displayValue = ''12''\<rparr>"
  have hl: "js_length ''1a2.3.4,5..6'' \<le> max_string_length"
    by (simp add: js_length_def utf16_units_def max_string_length_def)
  have h0: "(0::int) \<le> 0 \<and> (0::int) \<le> 100" and h2: "(0::int) \<le> 2 \<and> (2::int) \<le> 100"
    by simp_all
  have hv: "''.'' \<noteq> [] \<and> isNaN (parseFloat ''.'')"
    by (simp add: parse_dot isNaN_def)
  have inf: "pkrToPhpResult ''1'' ''0'' = Infinity Pos"
    by (simp add: pkrToPhpResult_def truthy_def parse_1 parse_0 isNaN_def sign_mult_def)
  have v: "sanitize ''1a2.3.4,5..6'' = ''12.3456''" by (simp add: san_defs)
  show ?thesis
    using C9_throws_only_for_decimals_out_of_range
        [of "''1a2.3.4,5..6''" ?f "''.''" "Infinity Pos" 2 "''.''" "''4.80''"]
      C9_throws_only_for_decimals_out_of_range
        [of "''1a2.3.4,5..6''" ?f "''.''" "Infinity Neg" 0 "''.''" "''4.80''"]
      hl h0 h2 hv inf v
    by simp
qed

text \<open>
  Claim C10.  Sanitization is idempotent, and a text of digits with at most one \<open>.\<close> (a
  RawAmount) is a fixed point of it.
\<close>

theorem C10_sanitize_idempotent:
  "sanitize (sanitize s) = sanitize s \<and> (is_raw t \<longrightarrow> sanitize t = t)"
  using is_raw_sanitize [of s] sanitize_fixed by blast

theorem C10_sanitize_idempotent_witness:
  "sanitize (sanitize ''1a2.3.4,5..6'') = ''12.3456'' \<and> is_raw ''12.50'' \<and> sanitize ''12.50'' = ''12.50''"
proof -
  have r: "is_raw ''12.50''" by (simp add: san_defs)
  have v: "sanitize ''1a2.3.4,5..6'' = ''12.3456''" by (simp add: san_defs)
  show ?thesis
    using r v C10_sanitize_idempotent [of "''1a2.3.4,5..6''" "''12.50''"] by simp
qed

end
